theory Spec2Isabelle
  imports Main "HOL-Library.Word" "HOL-Library.Sublist"
begin

unbundle bit_operations_syntax

section \<open>NDEF record header\<close>

text \<open>
  Array elements of the wire format are bytes. A JavaScript read outside an array
  yields \<open>undefined\<close>, which is \<open>None\<close> below; the bitwise operators of the source
  turn \<open>undefined\<close> into 0.
\<close>

type_synonym byte = "8 word"

text \<open>
  The five flags are used by the source only through their truth value
  (\<open>b & 0x80\<close> is stored, \<open>if (this.messageBegin)\<close> tests it), so they are booleans here.
\<close>

record Header =
  messageBegin :: bool
  messageEnd :: bool
  chunked :: bool
  shortRecord :: bool
  IDLength :: bool
  TNF :: byte

definition Header_new :: Header where
  "Header_new = \<lparr>messageBegin = False, messageEnd = False, chunked = False,
     shortRecord = False, IDLength = False, TNF = 0x01\<rparr>"

definition Header_toByte :: "Header \<Rightarrow> byte" where
  "Header_toByte h =
     (let b = TNF h;
          b = (if messageBegin h then b OR 0x80 else b);
          b = (if messageEnd h then b OR 0x40 else b);
          b = (if chunked h then b OR 0x20 else b);
          b = (if shortRecord h then b OR 0x10 else b);
          b = (if IDLength h then b OR 0x08 else b)
      in b)"

definition Header_fromByte :: "byte \<Rightarrow> Header" where
  "Header_fromByte b =
     \<lparr>messageBegin = (b AND 0x80 \<noteq> 0),
      messageEnd = (b AND 0x40 \<noteq> 0),
      chunked = (b AND 0x20 \<noteq> 0),
      shortRecord = (b AND 0x10 \<noteq> 0),
      IDLength = (b AND 0x08 \<noteq> 0),
      TNF = b AND 0x7\<rparr>"

text \<open>
  \<open>new Header(x)\<close> calls \<open>fromByte(x)\<close> whenever an argument is passed, also when
  that argument is \<open>undefined\<close>; every \<open>undefined & mask\<close> is 0.
\<close>

definition Header_ctor :: "byte option \<Rightarrow> Header" where
  "Header_ctor x = Header_fromByte (case x of None \<Rightarrow> 0 | Some b \<Rightarrow> b)"

section \<open>Strings and arrays of the source language\<close>

text \<open>
  Strings are sequences of single-byte characters (code units 0 to 255); code units above
  255 are outside this model. \<open>String.fromCharCode(undefined)\<close> is the character 0.
\<close>

definition charCodeAt :: "char \<Rightarrow> byte" where
  "charCodeAt c = of_nat (of_char c)"

definition fromCharCode :: "byte option \<Rightarrow> char" where
  "fromCharCode x = (case x of None \<Rightarrow> char_of (0::nat) | Some b \<Rightarrow> char_of (unat b))"

definition toLowerCase_char :: "char \<Rightarrow> char" where
  "toLowerCase_char c =
     (let n = (of_char c :: nat)
      in if (0x41 \<le> n \<and> n \<le> 0x5A) \<or> (0xC0 \<le> n \<and> n \<le> 0xDE \<and> n \<noteq> 0xD7)
         then char_of (n + 0x20) else c)"

definition toLowerCase :: "string \<Rightarrow> string" where
  "toLowerCase s = map toLowerCase_char s"

text \<open>\<open>data[i]\<close>: \<open>undefined\<close> outside the array.\<close>

definition at :: "byte list \<Rightarrow> int \<Rightarrow> byte option" where
  "at data i = (if 0 \<le> i \<and> i < int (length data) then Some (data ! nat i) else None)"

text \<open>
  \<open>data.slice(start, end)\<close> with integer arguments: a negative index counts from the
  end of the array, and both are clamped to the array.
\<close>

definition slice :: "byte list \<Rightarrow> int \<Rightarrow> int \<Rightarrow> byte list" where
  "slice data start end' =
     (let len = int (length data);
          k = (if start < 0 then max (len + start) 0 else min start len);
          final = (if end' < 0 then max (len + end') 0 else min end' len)
      in take (nat (final - k)) (drop (nat k) data))"

text \<open>
  \<open>new RegExp("^" + p)\<close> matched against a string, for a pattern \<open>p\<close> in which the only
  special character is the dot (as in every entry of the protocol list): the dot matches
  any character but a line terminator, every other character matches itself.
\<close>

fun RegExp_match :: "string \<Rightarrow> string \<Rightarrow> bool" where
  "RegExp_match [] s = True"
| "RegExp_match (p # ps) [] = False"
| "RegExp_match (p # ps) (c # cs) =
     ((if p = CHR ''.'' then c \<noteq> CHR 0x0A \<and> c \<noteq> CHR 0x0D else p = c) \<and> RegExp_match ps cs)"

section \<open>NDEF records\<close>

text \<open>
  A record object is an instance of one of the three registered classes, or of the base
  class. \<open>type\<close> and \<open>TNF\<close> are properties of the class prototype; \<open>bytes\<close> is the
  payload.
\<close>

datatype Record =
    BaseRecord
  | TextRecord string string "byte list"
  | URIRecord string "byte list"
  | AndroidApplicationRecord string "byte list"

fun Record_type :: "Record \<Rightarrow> string" where
  "Record_type BaseRecord = []"
| "Record_type (TextRecord text lang bytes) = ''T''"
| "Record_type (URIRecord uri bytes) = ''U''"
| "Record_type (AndroidApplicationRecord packageName bytes) = ''android.com:pkg''"

fun Record_TNF :: "Record \<Rightarrow> byte" where
  "Record_TNF BaseRecord = 0x01"
| "Record_TNF (TextRecord text lang bytes) = 0x01"
| "Record_TNF (URIRecord uri bytes) = 0x01"
| "Record_TNF (AndroidApplicationRecord packageName bytes) = 0x04"

fun Record_bytes :: "Record \<Rightarrow> byte list" where
  "Record_bytes BaseRecord = []"
| "Record_bytes (TextRecord text lang bytes) = bytes"
| "Record_bytes (URIRecord uri bytes) = bytes"
| "Record_bytes (AndroidApplicationRecord packageName bytes) = bytes"

subsection \<open>Text records\<close>

definition TextRecord_parse :: "byte list \<Rightarrow> Record" where
  "TextRecord_parse data =
     (let bytes = (if length data < 3 then [2, charCodeAt CHR ''e'', charCodeAt CHR ''n''] else data);
          lang = [fromCharCode (at bytes 1), fromCharCode (at bytes 2)];
          text = map (\<lambda>b. fromCharCode (Some b)) (drop 3 bytes)
      in TextRecord text lang bytes)"

definition TextRecord_reset :: "string \<Rightarrow> Record" where
  "TextRecord_reset text =
     (let lang = ''en''
      in TextRecord text lang ([of_nat (length lang)] @ map charCodeAt lang @ map charCodeAt text))"

subsection \<open>URI records\<close>

definition ProtocolList :: "string list" where
  "ProtocolList =
    [[],
     ''http://www.'',
     ''https://www.'',
     ''http://'',
     ''https://'',
     ''tel:'',
     ''mailto:'',
     ''ftp://anonymous:anonymous@'',
     ''ftp://ftp.'',
     ''ftps://'',
     ''sftp://'',
     ''smb://'',
     ''nfs://'',
     ''ftp://'',
     ''dav://'',
     ''news:'',
     ''telnet://'',
     ''imap:'',
     ''rtsp://'',
     ''urn:'',
     ''pop:'',
     ''sip:'',
     ''sips:'',
     ''tftp:'',
     ''btspp://'',
     ''btl2cap://'',
     ''btgoep://'',
     ''tcpobex://'',
     ''irdaobex://'',
     ''file://'',
     ''urn:epc:id:'',
     ''urn:epc:tag:'',
     ''urn:epc:pat:'',
     ''urn:epc:raw:'',
     ''urn:epc:'',
     ''urn:nfc:'']"

text \<open>
  The pattern text of \<open>"^" + this.ProtocolList[protocol]\<close>: beyond the last index the
  array read is \<open>undefined\<close>, which the concatenation turns into the word "undefined".
\<close>

definition ProtocolList_pattern :: "nat \<Rightarrow> string" where
  "ProtocolList_pattern protocol =
     (if protocol < length ProtocolList then ProtocolList ! protocol else ''undefined'')"

text \<open>
  The search loop \<open>for (protocol = 1; protocol <= this.ProtocolList.length; protocol++)\<close>,
  left by \<open>break\<close> at the first pattern that matches; the result is the value of
  \<open>protocol\<close> after the loop.
\<close>

function URIRecord_scan :: "string \<Rightarrow> nat \<Rightarrow> nat" where
  "URIRecord_scan lc protocol =
     (if protocol \<le> length ProtocolList
      then (if RegExp_match (ProtocolList_pattern protocol) lc then protocol
            else URIRecord_scan lc (protocol + 1))
      else protocol)"
  by pat_completeness auto
termination
  by (relation "measure (\<lambda>(lc, protocol). Suc (length ProtocolList) - protocol)") auto

declare URIRecord_scan.simps [simp del]

definition URIRecord_reset :: "string \<Rightarrow> Record" where
  "URIRecord_reset uri =
     (let lc = toLowerCase uri;
          protocol = URIRecord_scan lc 1;
          protocol = (if protocol \<ge> length ProtocolList then 0 else protocol);
          remainder = drop (length (ProtocolList ! protocol)) uri
      in URIRecord uri (of_nat protocol # map charCodeAt remainder))"

definition URIRecord_parse :: "byte list \<Rightarrow> Record" where
  "URIRecord_parse data =
     (if length data < 1 then URIRecord [] []
      else
        let protocol = unat (data ! 0);
            protocol = (if protocol \<ge> length ProtocolList then 0 else protocol)
        in URIRecord (ProtocolList ! protocol @ map (\<lambda>b. fromCharCode (Some b)) (drop 1 data)) data)"

subsection \<open>Android application records\<close>

definition AndroidApplicationRecord_parse :: "byte list \<Rightarrow> Record" where
  "AndroidApplicationRecord_parse data =
     AndroidApplicationRecord (map (\<lambda>b. fromCharCode (Some b)) data) data"

definition AndroidApplicationRecord_reset :: "string \<Rightarrow> Record" where
  "AndroidApplicationRecord_reset text = AndroidApplicationRecord text (map charCodeAt text)"

subsection \<open>Constructors\<close>

text \<open>
  Each constructor takes a string (\<open>reset\<close>), nothing (the fields keep their defaults,
  \<open>bytes\<close> being the empty array of the prototype) or a byte array (\<open>parse\<close>).
\<close>

datatype cdata = CString string | CUndefined | CBytes "byte list"

fun TextRecord_new :: "cdata \<Rightarrow> Record" where
  "TextRecord_new (CString s) = TextRecord_reset s"
| "TextRecord_new CUndefined = TextRecord [] ''en'' []"
| "TextRecord_new (CBytes data) = TextRecord_parse data"

fun URIRecord_new :: "cdata \<Rightarrow> Record" where
  "URIRecord_new (CString s) = URIRecord_reset s"
| "URIRecord_new CUndefined = URIRecord [] []"
| "URIRecord_new (CBytes data) = URIRecord_parse data"

fun AndroidApplicationRecord_new :: "cdata \<Rightarrow> Record" where
  "AndroidApplicationRecord_new (CString s) = AndroidApplicationRecord_reset s"
| "AndroidApplicationRecord_new CUndefined = AndroidApplicationRecord [] []"
| "AndroidApplicationRecord_new (CBytes data) = AndroidApplicationRecord_parse data"

text \<open>\<open>Record.typeKeys\<close>, in the order of registration.\<close>

definition typeKeys :: "(string \<times> (byte list \<Rightarrow> Record)) list" where
  "typeKeys =
     [(''T'', \<lambda>args. TextRecord_new (CBytes args)),
      (''U'', \<lambda>args. URIRecord_new (CBytes args)),
      (''android.com:pkg'', \<lambda>args. AndroidApplicationRecord_new (CBytes args))]"

subsection \<open>Serialising a record\<close>

text \<open>
  The length of the payload goes through the 32-bit operators \<open>>>\<close> and \<open>&\<close>:
  \<open>>>\<close> is the arithmetic shift of the length taken as a signed 32-bit integer.
\<close>

definition length_bytes :: "nat \<Rightarrow> byte list" where
  "length_bytes n =
     (let w = (of_nat n :: 32 word)
      in [ucast (signed_drop_bit 24 w AND 0xff),
          ucast (signed_drop_bit 16 w AND 0xff),
          ucast (signed_drop_bit 8 w AND 0xff),
          ucast (w AND 0xff)])"

definition Record_getBytes :: "Record \<Rightarrow> bool \<Rightarrow> bool \<Rightarrow> byte list" where
  "Record_getBytes r first last' =
     (let data = Record_bytes r;
          header = Header_new\<lparr>messageBegin := first, messageEnd := last', TNF := Record_TNF r,
                     shortRecord := length data < 0x100\<rparr>
      in [Header_toByte header, of_nat (length (Record_type r))]
         @ (if shortRecord header then [of_nat (length data)] else length_bytes (length data))
         @ map charCodeAt (Record_type r)
         @ data)"

subsection \<open>Parsing a record\<close>

datatype error =
    InvalidRecordData
  | InvalidRecordDataLen int int
  | UnsupportedRecordType string

text \<open>
  \<open>(len[0] << 24) | (len[1] << 16) | (len[2] << 8) | len[3]\<close>: a signed 32-bit result; an
  element read past the end of the array counts as 0.
\<close>

definition num32 :: "byte option \<Rightarrow> 32 word" where
  "num32 x = (case x of None \<Rightarrow> 0 | Some b \<Rightarrow> ucast b)"

definition length_word :: "byte option \<Rightarrow> byte option \<Rightarrow> byte option \<Rightarrow> byte option \<Rightarrow> 32 word" where
  "length_word l0 l1 l2 l3 =
     ((push_bit 24 (num32 l0) OR push_bit 16 (num32 l1)) OR push_bit 8 (num32 l2)) OR num32 l3"

definition long_length :: "byte option \<Rightarrow> byte option \<Rightarrow> byte option \<Rightarrow> byte option \<Rightarrow> int" where
  "long_length l0 l1 l2 l3 = sint (length_word l0 l1 l2 l3)"

text \<open>
  The declared payload length and the position after the length field. In the short form
  the length is the array element itself, \<open>None\<close> when that read is \<open>undefined\<close>.
\<close>

definition Record_recordLen :: "byte list \<Rightarrow> int \<Rightarrow> int option \<times> int" where
  "Record_recordLen data offset =
     (if shortRecord (Header_ctor (at data offset))
      then (map_option uint (at data (offset + 2)), offset + 3)
      else (Some (long_length (at data (offset + 2)) (at data (offset + 3))
                    (at data (offset + 4)) (at data (offset + 5))), offset + 6))"

text \<open>
  The number of type-name characters the loop \<open>for (i = 0; i < typeLen; i++)\<close> reads:
  no iteration when \<open>typeLen\<close> is \<open>undefined\<close>.
\<close>

definition Record_typeLen :: "byte list \<Rightarrow> int \<Rightarrow> nat" where
  "Record_typeLen data offset = (case at data (offset + 1) of None \<Rightarrow> 0 | Some t \<Rightarrow> unat t)"

text \<open>
  The result is the error thrown, or the pair \<open>consumed\<close>, \<open>record\<close>. With an
  \<open>undefined\<close> length the comparison is false, the slice end is 0 and \<open>consumed\<close> is
  not a number (\<open>None\<close>).
\<close>

definition Record_parse :: "byte list \<Rightarrow> int \<Rightarrow> error + (int option \<times> Record)" where
  "Record_parse data offset =
     (if int (length data) - offset < 4 then Inl InvalidRecordData
      else
        let (recordLen, ptr) = Record_recordLen data offset;
            typeLen = Record_typeLen data offset;
            recordType = map (\<lambda>i. fromCharCode (at data (ptr + int i))) [0..<typeLen];
            ptr = ptr + int typeLen
        in if (case recordLen of None \<Rightarrow> False | Some l \<Rightarrow> int (length data) - ptr < l)
           then Inl (InvalidRecordDataLen (the recordLen) (int (length data) - ptr))
           else
             let recordData = (case recordLen of None \<Rightarrow> slice data ptr 0
                               | Some l \<Rightarrow> slice data ptr (ptr + l));
                 consumed = map_option (\<lambda>l. ptr - offset + l) recordLen
             in (case map_of typeKeys recordType of
                   Some ctor \<Rightarrow> Inr (consumed, ctor recordData)
                 | None \<Rightarrow> Inl (UnsupportedRecordType recordType)))"

text \<open>
  The indices at which \<open>Record.parse\<close> evaluates \<open>data[...]\<close>, in the order of the reads:
  header, type length, length field, type name. (\<open>slice\<close> clamps and reads nothing outside.)
\<close>

definition Record_parse_reads :: "byte list \<Rightarrow> int \<Rightarrow> int list" where
  "Record_parse_reads data offset =
     (if int (length data) - offset < 4 then []
      else
        let (recordLen, ptr) = Record_recordLen data offset;
            typeLen = Record_typeLen data offset
        in [offset, offset + 1]
           @ (if shortRecord (Header_ctor (at data offset)) then [offset + 2]
              else [offset + 2, offset + 3, offset + 4, offset + 5])
           @ map (\<lambda>i. ptr + int i) [0..<typeLen])"

section \<open>NDEF messages\<close>

type_synonym Message = "Record list"

definition Message_getBytes :: "Message \<Rightarrow> byte list" where
  "Message_getBytes records =
     concat (map (\<lambda>i. Record_getBytes (records ! i) (i = 0) (i = length records - 1))
               [0..<length records])"

text \<open>
  The loop \<open>while (offset < data.length)\<close> of \<open>Message.parse\<close>. Nothing in the source
  bounds the number of iterations, so the result is optional: \<open>None\<close> when the loop
  never ends, otherwise the error thrown or the message returned. A \<open>consumed\<close> that is
  not a number makes the offset not a number and the loop condition false.
\<close>

partial_function (option) Message_parse_loop ::
  "byte list \<Rightarrow> int \<Rightarrow> Record list \<Rightarrow> (error + Message) option" where
  "Message_parse_loop data offset records =
     (if offset < int (length data) then
        (case Record_parse data offset of
           Inl e \<Rightarrow> Some (Inl e)
         | Inr (consumed, record) \<Rightarrow>
             (case consumed of
                None \<Rightarrow> Some (Inr (records @ [record]))
              | Some c \<Rightarrow> Message_parse_loop data (offset + c) (records @ [record])))
      else Some (Inr records))"

declare Message_parse_loop.simps [code]

definition Message_parse :: "byte list \<Rightarrow> (error + Message) option" where
  "Message_parse data = Message_parse_loop data 0 []"

section \<open>Serial link: inbound frames\<close>

definition RESPONSE_CODE_VERSION :: byte where "RESPONSE_CODE_VERSION = 0xA0"
definition RESPONSE_CODE_ACK :: byte where "RESPONSE_CODE_ACK = 0xA1"
definition RESPONSE_CODE_DATA :: byte where "RESPONSE_CODE_DATA = 0xA2"
definition RESPONSE_CODE_INTERRUPT :: byte where "RESPONSE_CODE_INTERRUPT = 0xA4"
definition RESPONSE_CODE_MESSAGE :: byte where "RESPONSE_CODE_MESSAGE = 0xA5"
definition RESPONSE_CODE_ERR :: byte where "RESPONSE_CODE_ERR = 0xEF"

datatype COMMS_STATE = NULL | LEN | DATA | INFO

datatype COMMS_EVENT_TYPE =
  EV_INFORMATION | EV_CONNECT_EVENT | EV_DATA | EV_ERROR | EV_NDEF_MESSAGE | EV_INTERRUPT | EV_ACK

text \<open>
  One constructor for each place where \<open>processdata\<close> emits a \<open>comms-event\<close>:
  the byte that follows an ACK, ERR or INTERRUPT code (with the event type, absent when
  the stored code is none of the three), a parsed message, the exception of a failed
  parse, the bytes of a DATA or VERSION frame, and free text.
\<close>

datatype comms_event =
    InfoByteEvent "COMMS_EVENT_TYPE option" byte
  | NdefMessageEvent Message
  | MessageReadErrorEvent error
  | DataEvent "byte list"
  | InformationEvent string

fun event_type :: "comms_event \<Rightarrow> COMMS_EVENT_TYPE option" where
  "event_type (InfoByteEvent t b) = t"
| "event_type (NdefMessageEvent msg) = Some EV_NDEF_MESSAGE"
| "event_type (MessageReadErrorEvent ex) = Some EV_ERROR"
| "event_type (DataEvent bytes) = Some EV_DATA"
| "event_type (InformationEvent s) = Some EV_INFORMATION"

text \<open>The module variables \<open>state\<close>, \<open>inbound\<close>, \<open>inboundCount\<close> and \<open>inboundResponse\<close>.\<close>

record comms =
  state :: COMMS_STATE
  inbound :: "byte list"
  inboundCount :: int
  inboundResponse :: byte

definition comms_init :: comms where
  "comms_init = \<lparr>state = NULL, inbound = [], inboundCount = 0, inboundResponse = 0\<rparr>"

text \<open>
  How a call leaves \<open>processdata\<close>: it returns, it throws "Unexpected inbound response
  type" with the stored code, or it never returns because \<open>Message.parse\<close> does not.
\<close>

datatype outcome = Returned | Threw byte | Hangs

text \<open>
  One iteration of the loop over the bytes of a chunk: the new variables, the events
  emitted, the text appended to \<open>s\<close>, and whether the loop goes on.
\<close>

definition processdata_byte :: "comms \<Rightarrow> byte \<Rightarrow> comms \<times> comms_event list \<times> string \<times> outcome" where
  "processdata_byte c b =
     (case state c of
        INFO \<Rightarrow>
          (let t = (if at (inbound c) 0 = Some RESPONSE_CODE_ACK then Some EV_ACK
                    else if at (inbound c) 0 = Some RESPONSE_CODE_ERR then Some EV_ERROR
                    else if at (inbound c) 0 = Some RESPONSE_CODE_INTERRUPT then Some EV_INTERRUPT
                    else None)
           in (c\<lparr>state := NULL\<rparr>, [InfoByteEvent t b], [], Returned))
      | LEN \<Rightarrow>
          (let c = c\<lparr>inbound := inbound c @ [b]\<rparr>
           in if length (inbound c) = 2
              then (c\<lparr>inboundCount :=
                         sint ((push_bit 8 (num32 (at (inbound c) 0)) OR num32 (at (inbound c) 1))),
                       inbound := [], state := DATA\<rparr>, [], [], Returned)
              else (c, [], [], Returned))
      | DATA \<Rightarrow>
          (let c = c\<lparr>inbound := inbound c @ [b]\<rparr>
           in if int (length (inbound c)) = inboundCount c
              then
                (let c = c\<lparr>state := NULL\<rparr>
                 in if inboundResponse c = RESPONSE_CODE_MESSAGE
                    then (case Message_parse (inbound c) of
                            None \<Rightarrow> (c, [], [], Hangs)
                          | Some (Inr msg) \<Rightarrow> (c, [NdefMessageEvent msg], [], Returned)
                          | Some (Inl ex) \<Rightarrow> (c, [MessageReadErrorEvent ex], [], Returned))
                    else if inboundResponse c = RESPONSE_CODE_DATA
                            \<or> inboundResponse c = RESPONSE_CODE_VERSION
                    then (c, [DataEvent (inbound c)], [], Returned)
                    else (c, [], [], Threw (inboundResponse c)))
              else (c, [], [], Returned))
      | NULL \<Rightarrow>
          (if b = RESPONSE_CODE_MESSAGE
           then (c\<lparr>state := LEN, inbound := [], inboundCount := -1,
                    inboundResponse := RESPONSE_CODE_MESSAGE\<rparr>, [], [], Returned)
           else if b = RESPONSE_CODE_DATA \<or> b = RESPONSE_CODE_VERSION
           then (c\<lparr>inbound := [], state := DATA, inboundCount := 2,
                    inboundResponse := RESPONSE_CODE_DATA\<rparr>, [], [], Returned)
           else if b = RESPONSE_CODE_ACK \<or> b = RESPONSE_CODE_ERR \<or> b = RESPONSE_CODE_INTERRUPT
           then (c\<lparr>state := INFO, inbound := [b]\<rparr>, [], [], Returned)
           else (c, [], [if 0x20 \<le> b \<and> b \<le> 0x80 then fromCharCode (Some b) else CHR ''?''],
                 Returned)))"

text \<open>
  The loop \<open>for (i = 0; i < data.length; i++)\<close>, started with the text \<open>s\<close> collected so
  far: the variables, the events and the text at the end of the loop.
\<close>

fun processdata_loop :: "comms \<Rightarrow> string \<Rightarrow> byte list \<Rightarrow> comms \<times> comms_event list \<times> string \<times> outcome" where
  "processdata_loop c s [] = (c, [], s, Returned)"
| "processdata_loop c s (b # bs) =
     (case processdata_byte c b of
        (c', evs, t, Returned) \<Rightarrow>
          (case processdata_loop c' (s @ t) bs of
             (c'', evs', s', out) \<Rightarrow> (c'', evs @ evs', s', out))
      | (c', evs, t, out) \<Rightarrow> (c', evs, s, out))"

text \<open>
  A call of \<open>processdata\<close> on one chunk. The text collected during the call is emitted
  as one INFORMATION event after the loop, when the loop was left normally.
\<close>

definition processdata :: "comms \<Rightarrow> byte list \<Rightarrow> comms \<times> comms_event list \<times> outcome" where
  "processdata c data =
     (case processdata_loop c [] data of
        (c', evs, s, out) \<Rightarrow>
          (c', evs @ (if out = Returned \<and> s \<noteq> [] then [InformationEvent s] else []), out))"

text \<open>
  The serial port calls \<open>processdata\<close> once for each chunk that arrives, in order; a call
  that does not return normally ends the sequence.
\<close>

fun feed :: "comms \<Rightarrow> byte list list \<Rightarrow> comms \<times> comms_event list \<times> outcome" where
  "feed c [] = (c, [], Returned)"
| "feed c (d # ds) =
     (case processdata c d of
        (c', evs, Returned) \<Rightarrow>
          (case feed c' ds of (c'', evs', out) \<Rightarrow> (c'', evs @ evs', out))
      | (c', evs, out) \<Rightarrow> (c', evs, out))"

section \<open>Serial link: outbound frames\<close>

text \<open>
  \<open>senddata\<close> with the port open (\<open>True\<close>) or not: the bytes handed to \<open>port.write\<close>,
  \<open>None\<close> when the function returns without writing.
\<close>

fun senddata_loop :: "byte list \<Rightarrow> byte list \<Rightarrow> byte list" where
  "senddata_loop bytes [] = bytes"
| "senddata_loop bytes (d # ds) =
     senddata_loop ((if d = 0x4a then bytes @ [0xe5] else bytes) @ [d]) ds"

definition senddata :: "bool \<Rightarrow> byte list \<Rightarrow> byte list option" where
  "senddata port_open data =
     (if \<not> port_open then None
      else Some (senddata_loop [0x4a, 0xe5] data))"

section \<open>Notions used in the statements about records and messages\<close>

text \<open>
  The first entry of the protocol list, from index 1 on, that is a prefix of the
  lower-cased URI; 0 when there is none.
\<close>

definition first_prefix :: "string \<Rightarrow> nat" where
  "first_prefix lc =
     (case filter (\<lambda>i. prefix (ProtocolList ! i) lc) [1..<length ProtocolList] of
        [] \<Rightarrow> 0
      | i # _ \<Rightarrow> i)"

text \<open>
  No entry of the list matches the lower-cased URI as a pattern without being a prefix of
  it (a dot of the entry standing for another character).
\<close>

definition literal_matches :: "string \<Rightarrow> bool" where
  "literal_matches lc =
     list_all (\<lambda>i. RegExp_match (ProtocolList ! i) lc \<longrightarrow> prefix (ProtocolList ! i) lc)
       [1..<length ProtocolList]"

text \<open>
  The length field of the record at \<open>offset\<close> read as an unsigned number (a byte past
  the end of the buffer counting as 0), and the position after the length field.
\<close>

definition declared_length :: "byte list \<Rightarrow> int \<Rightarrow> int" where
  "declared_length data offset =
     (if shortRecord (Header_ctor (at data offset))
      then (case at data (offset + 2) of None \<Rightarrow> 0 | Some b \<Rightarrow> uint b)
      else uint (length_word (at data (offset + 2)) (at data (offset + 3))
                   (at data (offset + 4)) (at data (offset + 5))))"

definition after_length_field :: "byte list \<Rightarrow> int \<Rightarrow> int" where
  "after_length_field data offset =
     offset + (if shortRecord (Header_ctor (at data offset)) then 3 else 6)"

text \<open>
  A declared field of the record at \<open>offset\<close> reaches past the end of the buffer: the length
  field, the type name, or the payload of the declared length.
\<close>

definition past_end :: "byte list \<Rightarrow> int \<Rightarrow> bool" where
  "past_end data offset =
     (int (length data) < after_length_field data offset
      \<or> int (length data) < after_length_field data offset + int (Record_typeLen data offset)
      \<or> int (length data) < after_length_field data offset + int (Record_typeLen data offset)
            + declared_length data offset)"

text \<open>
  A well-formed record: its type name is registered and has 1 to 255 characters, and the
  payload has the least length of its class (three bytes for a text record, one for a URI
  record).
\<close>

fun minimum_payload :: "Record \<Rightarrow> nat" where
  "minimum_payload (TextRecord text lang bytes) = 3"
| "minimum_payload (URIRecord uri bytes) = 1"
| "minimum_payload r = 0"

definition well_formed :: "Record \<Rightarrow> bool" where
  "well_formed r =
     (Record_type r \<in> set (map fst typeKeys)
      \<and> 1 \<le> length (Record_type r) \<and> length (Record_type r) \<le> 255
      \<and> minimum_payload r \<le> length (Record_bytes r))"

section \<open>Notions used in the statements about the frame decoder\<close>

text \<open>
  The events of a run other than free text, and the free text of a run as one string.
\<close>

definition protocol_events :: "comms_event list \<Rightarrow> comms_event list" where
  "protocol_events evs = filter (\<lambda>e. event_type e \<noteq> Some EV_INFORMATION) evs"

fun event_text :: "comms_event \<Rightarrow> string" where
  "event_text (InformationEvent s) = s"
| "event_text e = []"

definition information_text :: "comms_event list \<Rightarrow> string" where
  "information_text evs = concat (map event_text evs)"

text \<open>
  A MESSAGE frame as the board sends it: the response code, the length of the payload as
  two bytes, most significant first, and the payload.
\<close>

definition MESSAGE_frame :: "byte list \<Rightarrow> byte list" where
  "MESSAGE_frame payload =
     [RESPONSE_CODE_MESSAGE, of_nat (length payload div 256), of_nat (length payload mod 256)]
     @ payload"

text \<open>
  While a length or a payload is awaited, the stored response code is the one that opened
  the frame.
\<close>

definition response_known :: "comms \<Rightarrow> bool" where
  "response_known c =
     ((state c = LEN \<longrightarrow> inboundResponse c = RESPONSE_CODE_MESSAGE)
      \<and> (state c = DATA \<longrightarrow>
            inboundResponse c = RESPONSE_CODE_MESSAGE \<or> inboundResponse c = RESPONSE_CODE_DATA))"

section \<open>Header round trip\<close>

lemma single_bit_mask:
  fixes b :: byte
  assumes "b AND push_bit k 1 \<noteq> 0"
  shows "b AND push_bit k 1 = push_bit k 1"
proof -
  from assms have "bit b k"
    by (simp add: bit_iff_and_push_bit_not_eq_0)
  then show ?thesis
    by (intro bit_eqI) (auto simp add: bit_simps)
qed

lemma flag_masks:
  fixes b :: byte
  shows "b AND 0x80 \<noteq> 0 \<Longrightarrow> b AND 0x80 = 0x80"
    and "b AND 0x40 \<noteq> 0 \<Longrightarrow> b AND 0x40 = 0x40"
    and "b AND 0x20 \<noteq> 0 \<Longrightarrow> b AND 0x20 = 0x20"
    and "b AND 0x10 \<noteq> 0 \<Longrightarrow> b AND 0x10 = 0x10"
    and "b AND 0x08 \<noteq> 0 \<Longrightarrow> b AND 0x08 = 0x08"
  using single_bit_mask [of b 7] single_bit_mask [of b 6] single_bit_mask [of b 5]
    single_bit_mask [of b 4] single_bit_mask [of b 3]
  by simp_all

lemma byte_and_255: "(b :: byte) AND 255 = b"
  using take_bit_length_eq [of b] by (simp add: take_bit_eq_mask mask_eq_exp_minus_1)

lemma byte_parts:
  "((((((b :: byte) AND 7) OR (b AND 0x80)) OR (b AND 0x40)) OR (b AND 0x20)) OR (b AND 0x10))
     OR (b AND 0x08) = b"
proof -
  have "(((((b AND 7) OR (b AND 0x80)) OR (b AND 0x40)) OR (b AND 0x20)) OR (b AND 0x10))
          OR (b AND 0x08) = b AND 0xFF"
    by (simp flip: bit.conj_disj_distrib)
  then show ?thesis
    by (simp only: byte_and_255)
qed

lemma Header_toByte_fromByte: "Header_toByte (Header_fromByte b) = b"
proof -
  have "Header_toByte (Header_fromByte b) =
      (((((b AND 7) OR (b AND 0x80)) OR (b AND 0x40)) OR (b AND 0x20)) OR (b AND 0x10))
        OR (b AND 0x08)"
    unfolding Header_toByte_def Header_fromByte_def Let_def
    by (simp add: flag_masks)
  then show ?thesis
    by (simp only: byte_parts)
qed

text \<open>
  C5. For every byte \<open>b\<close>, \<open>fromByte\<close> after \<open>toByte\<close> after \<open>fromByte\<close> gives the header
  that \<open>fromByte\<close> alone gives: the same five flags and the same TNF.
\<close>

theorem Header_roundtrip:
  "Header_fromByte (Header_toByte (Header_fromByte b)) = Header_fromByte b"
  by (simp only: Header_toByte_fromByte)

theorem Header_roundtrip_witness:
  "Header_fromByte (Header_toByte (Header_fromByte 0xD1)) = Header_fromByte 0xD1"
  by (rule Header_roundtrip [of "0xD1"])

section \<open>The worked URI example\<close>

text \<open>
  C6. The URI record built from the string "http://www.example.com" has the payload
  1, 'e','x','a','m','p','l','e','.','c','o','m', and the message that holds only this
  record serialises to 0xD1, 1, 12, 'U' and the twelve payload bytes.
\<close>

theorem URIRecord_example:
  "Record_bytes (URIRecord_new (CString ''http://www.example.com''))
     = 1 # map charCodeAt ''example.com''
   \<and> Message_getBytes [URIRecord_new (CString ''http://www.example.com'')]
     = [0xD1, 1, 12, charCodeAt CHR ''U''] @ (1 # map charCodeAt ''example.com'')"
  by code_simp

section \<open>Outbound byte stuffing\<close>

lemma senddata_loop_eq:
  "senddata_loop bytes data =
     bytes @ concat (map (\<lambda>d. if d = 0x4a then [0xe5, d] else [d]) data)"
  by (induction data arbitrary: bytes) simp_all

text \<open>
  C8. With the port open, \<open>senddata\<close> writes the two marker bytes 0x4A, 0xE5 and then the
  payload in order, every byte unchanged, with one extra 0xE5 in front of each payload
  byte 0x4A and nothing added for any other byte, 0xE5 included.
\<close>

theorem senddata_stuffing:
  "senddata True data =
     Some ([0x4a, 0xe5] @ concat (map (\<lambda>d. if d = 0x4a then [0xe5, 0x4a] else [d]) data))"
proof -
  have "(\<lambda>d :: byte. if d = 0x4a then [0xe5, d] else [d])
          = (\<lambda>d. if d = 0x4a then [0xe5, 0x4a] else [d])"
    by auto
  then show ?thesis
    by (simp add: senddata_def senddata_loop_eq)
qed

theorem senddata_stuffing_witness:
  "senddata True [0x01, 0x4a, 0xe5, 0x02] = Some [0x4a, 0xe5, 0x01, 0xe5, 0x4a, 0xe5, 0x02]"
  using senddata_stuffing [of "[0x01, 0x4a, 0xe5, 0x02]"] by simp

section \<open>The frame decoder never meets an unexpected response code\<close>

lemma byte_no_throw:
  assumes "response_known c" "processdata_byte c b = (c', evs, t, out)"
  shows "response_known c' \<and> (\<forall>r. out \<noteq> Threw r)"
  using assms
  by (cases "state c")
     (auto simp add: processdata_byte_def response_known_def Let_def
        RESPONSE_CODE_MESSAGE_def RESPONSE_CODE_DATA_def
        split: if_splits option.splits sum.splits)

lemma loop_no_throw:
  "response_known c \<Longrightarrow> processdata_loop c s data = (c', evs, s', out)
     \<Longrightarrow> response_known c' \<and> (\<forall>r. out \<noteq> Threw r)"
proof (induction data arbitrary: c s c' evs s' out)
  case Nil
  then show ?case by simp
next
  case (Cons b bs)
  obtain c1 e1 t1 o1 where b: "processdata_byte c b = (c1, e1, t1, o1)"
    by (cases "processdata_byte c b") auto
  from byte_no_throw [OF Cons.prems(1) b]
  have k1: "response_known c1" and nt: "\<forall>r. o1 \<noteq> Threw r" by simp_all
  show ?case
  proof (cases o1)
    case Returned
    obtain c2 e2 s2 o2 where l: "processdata_loop c1 (s @ t1) bs = (c2, e2, s2, o2)"
      by (cases "processdata_loop c1 (s @ t1) bs") auto
    from Cons.prems(2) b Returned l have "c' = c2" "out = o2" by simp_all
    with Cons.IH [OF k1 l] show ?thesis by simp
  next
    case (Threw r)
    with nt show ?thesis by simp
  next
    case Hangs
    with Cons.prems(2) b have "c' = c1" "out = Hangs" by simp_all
    with k1 show ?thesis by simp
  qed
qed

lemma processdata_no_throw:
  "response_known c \<Longrightarrow> processdata c data = (c', evs, out)
     \<Longrightarrow> response_known c' \<and> (\<forall>r. out \<noteq> Threw r)"
  unfolding processdata_def
  by (auto split: prod.splits dest: loop_no_throw)

lemma feed_no_throw:
  "response_known c \<Longrightarrow> feed c chunks = (c', evs, out)
     \<Longrightarrow> response_known c' \<and> (\<forall>r. out \<noteq> Threw r)"
proof (induction chunks arbitrary: c c' evs out)
  case Nil
  then show ?case by simp
next
  case (Cons d ds)
  obtain c1 e1 o1 where p: "processdata c d = (c1, e1, o1)"
    by (cases "processdata c d") auto
  from processdata_no_throw [OF Cons.prems(1) p]
  have k1: "response_known c1" and nt: "\<forall>r. o1 \<noteq> Threw r" by simp_all
  show ?case
  proof (cases o1)
    case Returned
    obtain c2 e2 o2 where l: "feed c1 ds = (c2, e2, o2)"
      by (cases "feed c1 ds") auto
    from Cons.prems(2) p Returned l have "c' = c2" "out = o2" by simp_all
    with Cons.IH [OF k1 l] show ?thesis by simp
  next
    case (Threw r)
    with nt show ?thesis by simp
  next
    case Hangs
    with Cons.prems(2) p have "c' = c1" "out = Hangs" by simp_all
    with k1 show ?thesis by simp
  qed
qed

lemma response_known_init: "response_known comms_init"
  by (simp add: response_known_def comms_init_def)

text \<open>
  C9. Whatever bytes are fed, in whatever chunks, starting from the initial variables:
  no call of \<open>processdata\<close> throws "Unexpected inbound response type", and whenever a
  payload is awaited the stored response code is MESSAGE or DATA.
\<close>

theorem unexpected_response_unreachable:
  "feed comms_init chunks = (c, evs, out) \<Longrightarrow>
     (\<forall>r. out \<noteq> Threw r)
     \<and> (state c = DATA \<longrightarrow>
          inboundResponse c = RESPONSE_CODE_MESSAGE \<or> inboundResponse c = RESPONSE_CODE_DATA)"
  using feed_no_throw [OF response_known_init, of chunks c evs out]
  by (simp add: response_known_def)

theorem unexpected_response_unreachable_witness:
  "feed comms_init [[0xA5, 0], [2, 0x68]]
     = (\<lparr>state = DATA, inbound = [0x68], inboundCount = 2,
          inboundResponse = RESPONSE_CODE_MESSAGE\<rparr>, [], Returned)
   \<and> (\<forall>r. Returned \<noteq> Threw r)
   \<and> inboundResponse \<lparr>state = DATA, inbound = [0x68], inboundCount = 2,
          inboundResponse = RESPONSE_CODE_MESSAGE\<rparr> = RESPONSE_CODE_MESSAGE"
proof -
  have run: "feed comms_init [[0xA5, 0], [2, 0x68]]
     = (\<lparr>state = DATA, inbound = [0x68], inboundCount = 2,
          inboundResponse = RESPONSE_CODE_MESSAGE\<rparr>, [], Returned)"
    by code_simp
  from unexpected_response_unreachable [OF run] run show ?thesis
    by simp
qed

section \<open>Chunking of the inbound stream\<close>

lemma loop_text:
  "processdata_loop c s xs =
     (case processdata_loop c [] xs of (c', evs, t, out) \<Rightarrow> (c', evs, s @ t, out))"
proof (induction xs arbitrary: c s)
  case Nil
  show ?case by simp
next
  case (Cons b bs)
  obtain c1 e1 t1 o1 where b: "processdata_byte c b = (c1, e1, t1, o1)"
    by (cases "processdata_byte c b") auto
  obtain c2 e2 t2 o2 where l: "processdata_loop c1 [] bs = (c2, e2, t2, o2)"
    by (cases "processdata_loop c1 [] bs") auto
  have "processdata_loop c1 (s @ t1) bs = (c2, e2, (s @ t1) @ t2, o2)"
    using Cons.IH [of c1 "s @ t1"] l by simp
  moreover have "processdata_loop c1 ([] @ t1) bs = (c2, e2, t1 @ t2, o2)"
    using Cons.IH [of c1 "t1"] l by simp
  ultimately show ?case
    using b by (cases o1) simp_all
qed

lemma loop_append:
  "processdata_loop c s (xs @ ys) =
     (case processdata_loop c s xs of
        (c', evs, s', Returned) \<Rightarrow>
          (case processdata_loop c' s' ys of (c'', evs', s'', out) \<Rightarrow> (c'', evs @ evs', s'', out))
      | (c', evs, s', out) \<Rightarrow> (c', evs, s', out))"
proof (induction xs arbitrary: c s)
  case Nil
  show ?case by (simp split: prod.splits)
next
  case (Cons b bs)
  obtain c1 e1 t1 o1 where b: "processdata_byte c b = (c1, e1, t1, o1)"
    by (cases "processdata_byte c b") auto
  show ?case
  proof (cases o1)
    case Returned
    obtain c2 e2 s2 o2 where l: "processdata_loop c1 (s @ t1) bs = (c2, e2, s2, o2)"
      by (cases "processdata_loop c1 (s @ t1) bs") auto
    show ?thesis
      using b Returned l Cons.IH [of c1 "s @ t1"]
      by (cases o2) (simp_all split: prod.splits)
  next
    case (Threw r)
    with b show ?thesis by simp
  next
    case Hangs
    with b show ?thesis by simp
  qed
qed

lemma byte_events:
  "processdata_byte c b = (c', evs, t, out) \<Longrightarrow> e \<in> set evs \<Longrightarrow> event_type e \<noteq> Some EV_INFORMATION"
  by (cases "state c")
     (auto simp add: processdata_byte_def Let_def split: if_splits option.splits sum.splits)

lemma loop_events:
  "processdata_loop c s xs = (c', evs, s', out) \<Longrightarrow> e \<in> set evs \<Longrightarrow> event_type e \<noteq> Some EV_INFORMATION"
proof (induction xs arbitrary: c s c' evs s' out)
  case Nil
  then show ?case by simp
next
  case (Cons b bs)
  obtain c1 e1 t1 o1 where b: "processdata_byte c b = (c1, e1, t1, o1)"
    by (cases "processdata_byte c b") auto
  obtain c2 e2 s2 o2 where l: "processdata_loop c1 (s @ t1) bs = (c2, e2, s2, o2)"
    by (cases "processdata_loop c1 (s @ t1) bs") auto
  from Cons.prems(1) b l have "set evs \<subseteq> set e1 \<union> set e2"
    by (cases o1) auto
  with Cons.prems(2) have "e \<in> set e1 \<or> e \<in> set e2" by auto
  then show ?case
    using byte_events [OF b] Cons.IH [OF l] by blast
qed

lemma protocol_events_loop:
  assumes "processdata_loop c s xs = (c', evs, s', out)"
  shows "protocol_events evs = evs"
  unfolding protocol_events_def
  using loop_events [OF assms] by (simp add: filter_id_conv)

lemma event_text_protocol: "event_type e \<noteq> Some EV_INFORMATION \<Longrightarrow> event_text e = []"
  by (cases e) simp_all

lemma information_text_loop:
  assumes "processdata_loop c s xs = (c', evs, s', out)"
  shows "information_text evs = []"
  unfolding information_text_def
  using loop_events [OF assms] by (simp add: event_text_protocol)

lemma protocol_events_append: "protocol_events (xs @ ys) = protocol_events xs @ protocol_events ys"
  by (simp add: protocol_events_def)

lemma information_text_append: "information_text (xs @ ys) = information_text xs @ information_text ys"
  by (simp add: information_text_def)

text \<open>
  C2 (as amended). Feeding a byte sequence in any consecutive chunks, one call of
  \<open>processdata\<close> for each chunk, ends with the same decoder variables and in the same way
  as feeding it in one call, and emits the same events other than INFORMATION events, in
  the same order and with the same payloads; when the calls return, the INFORMATION texts
  taken together are the same text. Only the cutting of that text into INFORMATION events,
  and their place among the other events, follows the chunks.
\<close>

theorem chunking:
  assumes f: "feed c chunks = (c1, evs1, out1)"
    and p: "processdata c (concat chunks) = (c2, evs2, out2)"
  shows "c1 = c2 \<and> out1 = out2 \<and> protocol_events evs1 = protocol_events evs2
         \<and> (out1 = Returned \<longrightarrow> information_text evs1 = information_text evs2)"
  using f p
proof (induction chunks arbitrary: c c1 evs1 out1 c2 evs2 out2)
  case Nil
  then show ?case by (simp add: processdata_def)
next
  case (Cons d ds)
  obtain ca ea sa oa where la: "processdata_loop c [] d = (ca, ea, sa, oa)"
    by (cases "processdata_loop c [] d") auto
  show ?case
  proof (cases "oa = Returned")
    case False
    have "processdata_loop c [] (d @ concat ds) = (ca, ea, sa, oa)"
      using la False by (cases oa) (simp_all add: loop_append)
    with Cons.prems(2) have 2: "c2 = ca" "evs2 = ea" "out2 = oa"
      using False by (simp_all add: processdata_def)
    have "processdata c d = (ca, ea, oa)"
      using la False by (simp add: processdata_def)
    with Cons.prems(1) have 1: "c1 = ca" "evs1 = ea" "out1 = oa"
      using False by (cases oa; simp)+
    from 1 2 False show ?thesis by simp
  next
    case True
    obtain cb eb sb ob where lb: "processdata_loop ca [] (concat ds) = (cb, eb, sb, ob)"
      by (cases "processdata_loop ca [] (concat ds)") auto
    obtain cf ef fo where ff: "feed ca ds = (cf, ef, fo)"
      by (cases "feed ca ds") auto
    define flush :: "string \<Rightarrow> outcome \<Rightarrow> comms_event list"
      where "flush s out = (if out = Returned \<and> s \<noteq> [] then [InformationEvent s] else [])"
      for s out
    have fl: "protocol_events (flush s out) = []" for s out
      by (simp add: flush_def protocol_events_def)
    have ft: "information_text (flush s Returned) = s" for s
      by (simp add: flush_def information_text_def)
    have pb: "processdata ca (concat ds) = (cb, eb @ flush sb ob, ob)"
      using lb by (simp add: processdata_def flush_def)
    from Cons.IH [OF ff pb]
    have ih: "cf = cb" "fo = ob" "protocol_events ef = protocol_events (eb @ flush sb ob)"
      "fo = Returned \<longrightarrow> information_text ef = information_text (eb @ flush sb ob)"
      by simp_all
    have "processdata_loop ca sa (concat ds) = (cb, eb, sa @ sb, ob)"
      using loop_text [of ca sa "concat ds"] lb by simp
    then have whole: "processdata_loop c [] (d @ concat ds) = (cb, ea @ eb, sa @ sb, ob)"
      using la True by (simp add: loop_append)
    with Cons.prems(2) have 2: "c2 = cb" "evs2 = (ea @ eb) @ flush (sa @ sb) ob" "out2 = ob"
      by (auto simp add: processdata_def flush_def)
    have "processdata c d = (ca, ea @ flush sa Returned, Returned)"
      using la True by (simp add: processdata_def flush_def)
    with Cons.prems(1) ff have 1: "c1 = cf" "evs1 = (ea @ flush sa Returned) @ ef" "out1 = fo"
      by simp_all
    have pe: "protocol_events ea = ea" "protocol_events eb = eb"
      using protocol_events_loop [OF la] protocol_events_loop [OF lb] by simp_all
    have it: "information_text ea = []" "information_text eb = []"
      using information_text_loop [OF la] information_text_loop [OF lb] by simp_all
    have "protocol_events evs1 = protocol_events evs2"
      unfolding 1 2 using ih(3) pe by (simp add: protocol_events_append fl)
    moreover have "out1 = Returned \<longrightarrow> information_text evs1 = information_text evs2"
      unfolding 1 2 using ih(2,4) it by (auto simp add: information_text_append ft)
    ultimately show ?thesis
      using 1 2 ih by simp
  qed
qed

theorem chunking_witness:
  "feed comms_init [[0x41, 0xA1], [0x07, 0x42]]
     = (\<lparr>state = NULL, inbound = [0xA1], inboundCount = 0, inboundResponse = 0\<rparr>,
        [InformationEvent ''A'', InfoByteEvent (Some EV_ACK) 0x07, InformationEvent ''B''], Returned)
   \<and> processdata comms_init (concat [[0x41, 0xA1], [0x07, 0x42]])
     = (\<lparr>state = NULL, inbound = [0xA1], inboundCount = 0, inboundResponse = 0\<rparr>,
        [InfoByteEvent (Some EV_ACK) 0x07, InformationEvent ''AB''], Returned)
   \<and> protocol_events
        [InformationEvent ''A'', InfoByteEvent (Some EV_ACK) 0x07, InformationEvent ''B'']
     = protocol_events [InfoByteEvent (Some EV_ACK) 0x07, InformationEvent ''AB'']
   \<and> information_text
        [InformationEvent ''A'', InfoByteEvent (Some EV_ACK) 0x07, InformationEvent ''B'']
     = information_text [InfoByteEvent (Some EV_ACK) 0x07, InformationEvent ''AB'']"
proof -
  have f: "feed comms_init [[0x41, 0xA1], [0x07, 0x42]]
     = (\<lparr>state = NULL, inbound = [0xA1], inboundCount = 0, inboundResponse = 0\<rparr>,
        [InformationEvent ''A'', InfoByteEvent (Some EV_ACK) 0x07, InformationEvent ''B''], Returned)"
    by code_simp
  have p: "processdata comms_init (concat [[0x41, 0xA1], [0x07, 0x42]])
     = (\<lparr>state = NULL, inbound = [0xA1], inboundCount = 0, inboundResponse = 0\<rparr>,
        [InfoByteEvent (Some EV_ACK) 0x07, InformationEvent ''AB''], Returned)"
    by code_simp
  from chunking [OF f p] f p show ?thesis
    by simp
qed

text \<open>
  The claim as first stated fails: two stray bytes fed one at a time give two INFORMATION
  events, fed together they give one.
\<close>

theorem chunking_counterexample:
  "fst (snd (feed comms_init [[0x41], [0x42]]))
     = [InformationEvent ''A'', InformationEvent ''B'']
   \<and> fst (snd (processdata comms_init ([0x41] @ [0x42]))) = [InformationEvent ''AB'']"
  by code_simp

section \<open>Length fields\<close>

lemma length_byte:
  fixes w :: "32 word"
  assumes "k \<le> 24"
  shows "(ucast (ucast (signed_drop_bit k w AND 0xff) :: byte) :: 32 word) = take_bit 8 (drop_bit k w)"
proof -
  have m: "(0xff :: 32 word) = mask 8"
    by (simp add: mask_eq_exp_minus_1)
  show ?thesis
    unfolding m using assms
    by (intro bit_word_eqI) (auto simp add: bit_simps)
qed

lemma length_byte0:
  fixes w :: "32 word"
  shows "(ucast (ucast (w AND 0xff) :: byte) :: 32 word) = take_bit 8 w"
  using length_byte [of 0 w] by simp

lemma four_bytes:
  fixes w :: "32 word"
  shows "((push_bit 24 (take_bit 8 (drop_bit 24 w)) OR push_bit 16 (take_bit 8 (drop_bit 16 w)))
          OR push_bit 8 (take_bit 8 (drop_bit 8 w))) OR take_bit 8 w = w"
proof (rule bit_word_eqI)
  fix n
  assume "n < LENGTH(32)"
  then consider "n < 8" | m where "n = 8 + m" "m < 8" | m where "n = 16 + m" "m < 8"
    | m where "n = 24 + m" "m < 8"
  proof -
    assume a: "n < LENGTH(32)" 
      and 1: "n < 8 \<Longrightarrow> thesis" and 2: "\<And>m. n = 8 + m \<Longrightarrow> m < 8 \<Longrightarrow> thesis"
      and 3: "\<And>m. n = 16 + m \<Longrightarrow> m < 8 \<Longrightarrow> thesis" and 4: "\<And>m. n = 24 + m \<Longrightarrow> m < 8 \<Longrightarrow> thesis"
    show thesis
      using a 1 2 [of "n - 8"] 3 [of "n - 16"] 4 [of "n - 24"] by (simp; linarith)
  qed
  then show "bit (((push_bit 24 (take_bit 8 (drop_bit 24 w)) OR push_bit 16 (take_bit 8 (drop_bit 16 w)))
          OR push_bit 8 (take_bit 8 (drop_bit 8 w))) OR take_bit 8 w) n = bit w n"
    by cases (auto simp add: bit_simps)
qed

lemma take_bit_signed_drop_bit:
  fixes w :: "32 word"
  assumes "k \<le> 24"
  shows "take_bit 8 (signed_drop_bit k w) = take_bit 8 (drop_bit k w)"
  using assms by (intro bit_word_eqI) (auto simp add: bit_simps)

lemma long_length_bytes:
  assumes "n < 2 ^ 31"
  shows "long_length (Some (length_bytes n ! 0)) (Some (length_bytes n ! 1))
           (Some (length_bytes n ! 2)) (Some (length_bytes n ! 3)) = int n"
proof -
  have "sint (word_of_nat n :: 32 word) = int n"
    using assms by (simp add: signed_of_nat signed_take_bit_int_eq_self)
  then show ?thesis
    by (simp add: long_length_def length_word_def length_bytes_def num32_def Let_def
          length_byte0 take_bit_signed_drop_bit four_bytes)
qed

lemma or_low_byte:
  fixes h l :: int
  assumes "0 \<le> l" "l < 256"
  shows "push_bit 8 h OR l = h * 256 + l"
proof -
  have l: "take_bit 8 l = l"
    using assms by (simp add: take_bit_int_eq_self)
  have "push_bit 8 h + take_bit 8 l = push_bit 8 h OR take_bit 8 l"
    by (rule disjunctive_add) (auto simp add: bit_simps)
  then show ?thesis
    by (simp add: l push_bit_eq_mult)
qed

lemma be16:
  fixes hi lo :: byte
  shows "sint ((push_bit 8 (ucast hi) OR ucast lo) :: 32 word) = uint hi * 256 + uint lo"
proof -
  have hi: "0 \<le> uint hi" "uint hi < 256" and lo: "0 \<le> uint lo" "uint lo < 256"
    using uint_lt2p [of hi] uint_lt2p [of lo] by simp_all
  have b: "0 \<le> uint hi * 256 + uint lo" "uint hi * 256 + uint lo < 65536"
    using hi lo by simp_all
  have "sint ((push_bit 8 (ucast hi) OR ucast lo) :: 32 word)
      = signed_take_bit 31 (take_bit 32 (push_bit 8 (take_bit 32 (uint hi))) OR take_bit 32 (uint lo))"
    by (simp add: sint_uint unsigned_or_eq unsigned_push_bit_eq unsigned_ucast_eq)
  also have "take_bit 32 (uint hi) = uint hi"
    using hi by (simp add: take_bit_int_eq_self)
  also have "take_bit 32 (uint lo) = uint lo"
    using lo by (simp add: take_bit_int_eq_self)
  also have "take_bit 32 (push_bit 8 (uint hi)) = push_bit 8 (uint hi)"
    using hi by (simp add: take_bit_int_eq_self push_bit_eq_mult)
  also have "push_bit 8 (uint hi) OR uint lo = uint hi * 256 + uint lo"
    using lo by (rule or_low_byte)
  also have "signed_take_bit 31 (uint hi * 256 + uint lo) = uint hi * 256 + uint lo"
  proof (rule signed_take_bit_int_eq_self)
    have e: "(2 :: int) ^ 31 = 2147483648"
      by simp
    show "- (2 ^ 31) \<le> uint hi * 256 + uint lo"
      unfolding e using hi lo by linarith
    show "uint hi * 256 + uint lo < 2 ^ 31"
      unfolding e using hi lo by linarith
  qed
  finally show ?thesis .
qed

section \<open>A MESSAGE frame that fails to parse\<close>

lemma frame_length:
  assumes "n < 65536"
  shows "uint (of_nat (n div 256) :: byte) * 256 + uint (of_nat (n mod 256) :: byte) = int n"
proof -
  have "n div 256 < 256"
    using assms by simp
  then have "uint (of_nat (n div 256) :: byte) = int (n div 256)"
    by (simp add: unsigned_of_nat take_bit_nat_eq_self)
  moreover have "uint (of_nat (n mod 256) :: byte) = int (n mod 256)"
    by (simp add: unsigned_of_nat take_bit_nat_eq_self)
  ultimately show ?thesis
    by (simp add: zdiv_int zmod_int)
qed

lemma message_header:
  assumes "state c = NULL"
  shows "processdata_loop c s [RESPONSE_CODE_MESSAGE, hi, lo] =
     (c\<lparr>state := DATA, inbound := [], inboundCount := uint hi * 256 + uint lo,
        inboundResponse := RESPONSE_CODE_MESSAGE\<rparr>, [], s, Returned)"
  using assms
  by (simp add: processdata_byte_def Let_def at_def num32_def be16)

lemma data_accumulate:
  assumes "state c = DATA" "xs \<noteq> []"
    and "inboundCount c = int (length (inbound c) + length xs)"
  shows "processdata_loop c s xs =
     (case processdata_byte (c\<lparr>inbound := inbound c @ butlast xs\<rparr>) (last xs) of
        (c', evs, t, out) \<Rightarrow> (c', evs, s, out))"
  using assms
proof (induction xs arbitrary: c)
  case Nil
  then show ?case by simp
next
  case (Cons b bs)
  show ?case
  proof (cases bs)
    case Nil
    obtain c1 e1 t1 o1 where b: "processdata_byte c b = (c1, e1, t1, o1)"
      by (cases "processdata_byte c b") auto
    have "t1 = []"
      using b Cons.prems(1)
      by (auto simp add: processdata_byte_def Let_def split: if_splits option.splits sum.splits)
    then show ?thesis
      using b Nil by (cases o1) simp_all
  next
    case (Cons b' bs')
    let ?c1 = "c\<lparr>inbound := inbound c @ [b]\<rparr>"
    have step: "processdata_byte c b = (?c1, [], [], Returned)"
      using Cons.prems(1,3) Cons by (simp add: processdata_byte_def Let_def)
    have "processdata_loop ?c1 s bs =
      (case processdata_byte (?c1\<lparr>inbound := inbound ?c1 @ butlast bs\<rparr>) (last bs) of
        (c', evs, t, out) \<Rightarrow> (c', evs, s, out))"
      using Cons.prems Cons by (intro Cons.IH) simp_all
    then show ?thesis
      using step Cons by (simp split: prod.splits)
  qed
qed

lemma message_frame:
  assumes "state c = NULL" "p \<noteq> []" "length p < 65536"
  shows "processdata c (MESSAGE_frame p) =
     (case Message_parse p of
        None \<Rightarrow> (c\<lparr>state := NULL, inbound := p, inboundCount := int (length p),
                  inboundResponse := RESPONSE_CODE_MESSAGE\<rparr>, [], Hangs)
      | Some (Inr msg) \<Rightarrow> (c\<lparr>state := NULL, inbound := p, inboundCount := int (length p),
                  inboundResponse := RESPONSE_CODE_MESSAGE\<rparr>, [NdefMessageEvent msg], Returned)
      | Some (Inl ex) \<Rightarrow> (c\<lparr>state := NULL, inbound := p, inboundCount := int (length p),
                  inboundResponse := RESPONSE_CODE_MESSAGE\<rparr>, [MessageReadErrorEvent ex], Returned))"
proof -
  define hi lo :: byte where "hi = of_nat (length p div 256)" and "lo = of_nat (length p mod 256)"
  define c1 where "c1 = c\<lparr>state := DATA, inbound := [], inboundCount := int (length p),
        inboundResponse := RESPONSE_CODE_MESSAGE\<rparr>"
  have n: "uint hi * 256 + uint lo = int (length p)"
    unfolding hi_def lo_def using assms(3) by (rule frame_length)
  have h: "processdata_loop c [] [RESPONSE_CODE_MESSAGE, hi, lo] = (c1, [], [], Returned)"
    using message_header [OF assms(1), of "[]" hi lo] by (simp add: n c1_def)
  have pl: "p = butlast p @ [last p]"
    using assms(2) by simp
  have d: "processdata_loop c1 [] p =
     (case processdata_byte (c1\<lparr>inbound := inbound c1 @ butlast p\<rparr>) (last p) of
        (c', evs, t, out) \<Rightarrow> (c', evs, [], out))"
    using assms(2) by (intro data_accumulate) (simp_all add: c1_def)
  have "MESSAGE_frame p = [RESPONSE_CODE_MESSAGE, hi, lo] @ p"
    by (simp add: MESSAGE_frame_def hi_def lo_def)
  then have "processdata_loop c [] (MESSAGE_frame p) =
     (case processdata_byte (c1\<lparr>inbound := inbound c1 @ butlast p\<rparr>) (last p) of
        (c', evs, t, out) \<Rightarrow> (c', evs, [], out))"
    using h d by (simp only: loop_append) (simp split: prod.splits outcome.splits)
  moreover have "inbound c1 @ butlast p @ [last p] = p"
    using pl by (simp add: c1_def)
  moreover have "1 + int (length p - Suc 0) = int (length p)"
    using assms(2) by (cases p) simp_all
  ultimately show ?thesis
    by (simp add: processdata_def processdata_byte_def c1_def Let_def
          split: option.splits sum.splits)
qed

text \<open>
  When the payload of a MESSAGE frame fails \<open>Message.parse\<close>, the decoder (in state NULL
  before the frame) emits exactly one event for the frame, an ERROR event with the
  exception, and is in state NULL afterwards; a MESSAGE frame with a payload that is not
  empty and parses, fed next, is then decoded and emitted as one NDEF_MESSAGE event.
\<close>

lemma parse_failure_recovers:
  assumes "state c = NULL"
    and "length p < 65536" "Message_parse p = Some (Inl ex)"
    and "length q < 65536" "q \<noteq> []" "Message_parse q = Some (Inr msg)"
  shows "\<exists>c1 c2. processdata c (MESSAGE_frame p) = (c1, [MessageReadErrorEvent ex], Returned)
           \<and> state c1 = NULL
           \<and> processdata c1 (MESSAGE_frame q) = (c2, [NdefMessageEvent msg], Returned)
           \<and> state c2 = NULL"
proof -
  have "Message_parse [] = Some (Inr [])"
    by (simp add: Message_parse_def Message_parse_loop.simps)
  with assms(3) have "p \<noteq> []"
    by auto
  from message_frame [OF assms(1) this assms(2)] assms(3)
  obtain c1 where 1: "processdata c (MESSAGE_frame p) = (c1, [MessageReadErrorEvent ex], Returned)"
    and s1: "state c1 = NULL"
    by simp
  from message_frame [OF s1 assms(5) assms(4)] assms(6)
  obtain c2 where 2: "processdata c1 (MESSAGE_frame q) = (c2, [NdefMessageEvent msg], Returned)"
    and s2: "state c2 = NULL"
    by simp
  from 1 s1 2 s2 show ?thesis by blast
qed

lemma parse_failure_recovers_example:
  "state comms_init = NULL
   \<and> Message_parse [0x68, 0x69] = Some (Inl InvalidRecordData)
   \<and> Message_parse [0xD1, 1, 1, 0x55, 0] = Some (Inr [URIRecord [] [0]])
   \<and> (\<exists>c1 c2.
         processdata comms_init (MESSAGE_frame [0x68, 0x69])
           = (c1, [MessageReadErrorEvent InvalidRecordData], Returned)
         \<and> state c1 = NULL
         \<and> processdata c1 (MESSAGE_frame [0xD1, 1, 1, 0x55, 0])
           = (c2, [NdefMessageEvent [URIRecord [] [0]]], Returned)
         \<and> state c2 = NULL)"
proof -
  have s: "state comms_init = NULL"
    by (simp add: comms_init_def)
  have p: "Message_parse [0x68, 0x69] = Some (Inl InvalidRecordData)"
    by code_simp
  have q: "Message_parse [0xD1, 1, 1, 0x55, 0] = Some (Inr [URIRecord [] [0]])"
    by code_simp
  from parse_failure_recovers [OF s _ p _ _ q] s p q show ?thesis
    by simp
qed

text \<open>
  C7. After a MESSAGE frame whose payload fails \<open>Message.parse\<close> (one ERROR event, state
  NULL), a well-formed frame fed next should be decoded and emitted. The frame A5 00 00,
  which carries the empty message, is not: the length 0 is compared with the buffer only
  after a byte has been pushed, so the decoder stays in state DATA, emits nothing and
  takes the frames that follow as payload.
\<close>

theorem empty_frame_after_failure:
  "Message_parse [0x68, 0x69] = Some (Inl InvalidRecordData)
   \<and> Message_parse [] = Some (Inr [])
   \<and> Message_parse [0xD1, 1, 1, 0x55, 0] = Some (Inr [URIRecord [] [0]])
   \<and> processdata comms_init (MESSAGE_frame [0x68, 0x69])
       = (\<lparr>state = NULL, inbound = [0x68, 0x69], inboundCount = 2,
            inboundResponse = RESPONSE_CODE_MESSAGE\<rparr>,
          [MessageReadErrorEvent InvalidRecordData], Returned)
   \<and> processdata
         \<lparr>state = NULL, inbound = [0x68, 0x69], inboundCount = 2,
            inboundResponse = RESPONSE_CODE_MESSAGE\<rparr>
         (MESSAGE_frame [] @ MESSAGE_frame [0xD1, 1, 1, 0x55, 0])
       = (\<lparr>state = DATA, inbound = [0xA5, 0, 5, 0xD1, 1, 1, 0x55, 0], inboundCount = 0,
            inboundResponse = RESPONSE_CODE_MESSAGE\<rparr>,
          [], Returned)"
  by code_simp

section \<open>A message on which the parse loop does not advance\<close>

lemma bad_record: "Record_parse [1, 1, 255, 255, 255, 249, 85] 0 = Inr (Some 0, URIRecord [] [])"
  by code_simp

lemma bad_loop:
  assumes "Message_parse_loop data offset records = Some y"
  shows "\<not> (data = [1, 1, 255, 255, 255, 249, 85] \<and> offset = 0)"
proof (rule Message_parse_loop.raw_induct [where P = "\<lambda>data offset records y.
         \<not> (data = [1, 1, 255, 255, 255, 249, 85] \<and> offset = 0)", OF _ assms])
  fix loop :: "byte list \<Rightarrow> int \<Rightarrow> Record list \<Rightarrow> (error + Message) option"
    and data offset records y
  assume IH: "\<And>data offset records y. loop data offset records = Some y
            \<Longrightarrow> \<not> (data = [1, 1, 255, 255, 255, 249, 85] \<and> offset = 0)"
    and step: "(if offset < int (length data)
      then case Record_parse data offset of Inl e \<Rightarrow> Some (Inl e)
           | Inr (None, record) \<Rightarrow> Some (Inr (records @ [record]))
           | Inr (Some c, record) \<Rightarrow> loop data (offset + c) (records @ [record])
      else Some (Inr records)) = Some y"
  show "\<not> (data = [1, 1, 255, 255, 255, 249, 85] \<and> offset = 0)"
  proof
    assume a: "data = [1, 1, 255, 255, 255, 249, 85] \<and> offset = 0"
    with step bad_record have "loop data offset (records @ [URIRecord [] []]) = Some y"
      by simp
    from IH [OF this] a show False
      by simp
  qed
qed

text \<open>
  C10. \<open>Message.parse\<close> is claimed to end on every buffer, each record parsed taking at
  least three bytes. On the seven bytes 01 01 FF FF FF F9 55 (long form, type "U", length
  field FFFFFFF9) the length is read as the signed number -7, \<open>Record.parse\<close> returns
  a record with \<open>consumed\<close> = 0, the offset stays 0 and the loop never ends.
\<close>

theorem Message_parse_diverges:
  "Record_parse [1, 1, 255, 255, 255, 249, 85] 0 = Inr (Some 0, URIRecord [] [])
   \<and> Message_parse [1, 1, 255, 255, 255, 249, 85] = None"
proof -
  have "Message_parse [1, 1, 255, 255, 255, 249, 85] = None"
  proof (cases "Message_parse [1, 1, 255, 255, 255, 249, 85]")
    case None
    then show ?thesis .
  next
    case (Some y)
    then show ?thesis
      using bad_loop [of "[1, 1, 255, 255, 255, 249, 85]" 0 "[]" y]
      by (simp add: Message_parse_def)
  qed
  with bad_record show ?thesis
    by simp
qed

section \<open>Truncated records\<close>

lemma short_length_defined:
  assumes "4 \<le> int (length data) - offset" "shortRecord (Header_ctor (at data offset))"
  shows "\<exists>b. at data (offset + 2) = Some b"
proof -
  have "\<not> shortRecord (Header_ctor None)"
    by (simp add: Header_ctor_def Header_fromByte_def)
  with assms(2) have "at data offset \<noteq> None"
    by (cases "at data offset") auto
  then have "0 \<le> offset"
    by (simp add: at_def split: if_splits)
  with assms(1) show ?thesis
    by (simp add: at_def)
qed

lemma recordLen_declared:
  assumes "4 \<le> int (length data) - offset" "declared_length data offset < 2 ^ 31"
  shows "Record_recordLen data offset
           = (Some (declared_length data offset), after_length_field data offset)"
proof (cases "shortRecord (Header_ctor (at data offset))")
  case True
  with short_length_defined [OF assms(1)] obtain b where "at data (offset + 2) = Some b"
    by blast
  with True show ?thesis
    by (simp add: Record_recordLen_def declared_length_def after_length_field_def)
next
  case False
  define w where "w = length_word (at data (offset + 2)) (at data (offset + 3))
                   (at data (offset + 4)) (at data (offset + 5))"
  have "uint w < 2 ^ 31"
    using assms(2) False by (simp add: declared_length_def w_def)
  moreover have "- (2 ^ 31) \<le> uint w"
    using uint_ge_0 [of w] by (simp only: order_trans [of "- (2 ^ 31)" 0 "uint w"] neg_le_0_iff_le zero_le_power zero_le_numeral)
  ultimately have "signed_take_bit 31 (uint w) = uint w"
    by (intro signed_take_bit_int_eq_self)
  then have "sint w = uint w"
    by (simp add: sint_uint)
  with False show ?thesis
    by (simp add: Record_recordLen_def declared_length_def after_length_field_def
          long_length_def w_def)
qed

text \<open>
  C4 (as amended). For every buffer and offset given to \<open>Record.parse\<close>: if a declared
  field (the length field, the type name or the payload of the declared length) reaches
  past the end of the buffer and the declared length is below 2^31, the parse fails with
  "Invalid NDEF record data", reporting the declared length and the bytes available when
  at least four bytes remain. Nothing is claimed about the indices read before the
  failure.
\<close>

theorem truncated_record:
  assumes "past_end data offset" "declared_length data offset < 2 ^ 31"
  shows "Record_parse data offset =
     (if int (length data) - offset < 4 then Inl InvalidRecordData
      else Inl (InvalidRecordDataLen (declared_length data offset)
             (int (length data)
                - (after_length_field data offset + int (Record_typeLen data offset)))))"
proof (cases "int (length data) - offset < 4")
  case True
  then show ?thesis
    by (simp add: Record_parse_def)
next
  case False
  then have 4: "4 \<le> int (length data) - offset"
    by simp
  have d: "0 \<le> declared_length data offset"
    by (simp add: declared_length_def split: option.splits)
  from assms(1) d
  have "int (length data) - (after_length_field data offset + int (Record_typeLen data offset))
          < declared_length data offset"
    unfolding past_end_def by linarith
  with False show ?thesis
    by (simp add: Record_parse_def recordLen_declared [OF 4 assms(2)] Let_def)
qed

theorem truncated_record_witness:
  "past_end [0x11, 1, 5, 0x55, 1, 2] 0
   \<and> declared_length [0x11, 1, 5, 0x55, 1, 2] 0 < 2 ^ 31
   \<and> Record_parse [0x11, 1, 5, 0x55, 1, 2] 0 = Inl (InvalidRecordDataLen 5 2)"
proof -
  have p: "past_end [0x11, 1, 5, 0x55, 1, 2] 0"
    by code_simp
  have d: "declared_length [0x11, 1, 5, 0x55, 1, 2] 0 < 2 ^ 31"
    by code_simp
  have v: "declared_length [0x11, 1, 5, 0x55, 1, 2] 0 = 5"
    "after_length_field [0x11, 1, 5, 0x55, 1, 2] 0 = 3"
    "Record_typeLen [0x11, 1, 5, 0x55, 1, 2] 0 = 1"
    by code_simp+
  from truncated_record [OF p d] p d show ?thesis
    by (simp add: v)
qed

text \<open>
  The claim as first stated fails on the four bytes 01 00 80 00: the length field reaches
  past the end of the buffer, the parse reads the indices 4 and 5, which are outside, and
  the error it throws is "Unsupported record type".
\<close>

theorem truncated_record_counterexample:
  "past_end [0x01, 0x00, 0x80, 0x00] 0
   \<and> Record_parse [0x01, 0x00, 0x80, 0x00] 0 = Inl (UnsupportedRecordType [])
   \<and> Record_parse_reads [0x01, 0x00, 0x80, 0x00] 0 = [0, 1, 2, 3, 4, 5]
   \<and> at [0x01, 0x00, 0x80, 0x00] 4 = None"
  by code_simp

section \<open>Choice of the URI abbreviation\<close>

lemma length_ProtocolList: "length ProtocolList = 36"
  by (simp add: ProtocolList_def)

lemma RegExp_match_prefix: "prefix p s \<Longrightarrow> RegExp_match p s"
proof (induction p arbitrary: s)
  case Nil
  show ?case by simp
next
  case (Cons a p)
  then obtain s' where s: "s = a # s'" "prefix p s'"
    by (cases s) auto
  with Cons.IH [of s'] show ?case
    by simp
qed

lemma scan_filter:
  "protocol \<le> Suc (length ProtocolList) \<Longrightarrow>
   URIRecord_scan lc protocol =
     (case filter (\<lambda>i. RegExp_match (ProtocolList_pattern i) lc)
             [protocol..<Suc (length ProtocolList)] of
        [] \<Rightarrow> Suc (length ProtocolList)
      | i # _ \<Rightarrow> i)"
proof (induction lc protocol rule: URIRecord_scan.induct)
  case (1 lc protocol)
  show ?case
  proof (cases "protocol \<le> length ProtocolList")
    case True
    then have u: "[protocol..<Suc (length ProtocolList)]
                    = protocol # [protocol + 1..<Suc (length ProtocolList)]"
      by (simp add: upt_conv_Cons)
    show ?thesis
    proof (cases "RegExp_match (ProtocolList_pattern protocol) lc")
      case m: True
      then show ?thesis
        using True u by (subst URIRecord_scan.simps) simp
    next
      case m: False
      have "URIRecord_scan lc (protocol + 1) =
        (case filter (\<lambda>i. RegExp_match (ProtocolList_pattern i) lc)
             [protocol + 1..<Suc (length ProtocolList)] of
          [] \<Rightarrow> Suc (length ProtocolList) | i # _ \<Rightarrow> i)"
        using True m by (intro "1.IH") simp_all
      then show ?thesis
        using True m u by (subst URIRecord_scan.simps) simp
    qed
  next
    case False
    with "1.prems" have "protocol = Suc (length ProtocolList)"
      by simp
    then show ?thesis
      by (subst URIRecord_scan.simps) simp
  qed
qed

lemma scan_first_prefix:
  assumes "literal_matches lc"
  shows "(if URIRecord_scan lc 1 \<ge> length ProtocolList then 0 else URIRecord_scan lc 1)
           = first_prefix lc"
proof -
  let ?P = "\<lambda>i. RegExp_match (ProtocolList_pattern i) lc"
  let ?Q = "\<lambda>i. prefix (ProtocolList ! i) lc"
  have eq: "?P i = ?Q i" if "i \<in> set [1..<length ProtocolList]" for i
  proof -
    from that have "ProtocolList_pattern i = ProtocolList ! i"
      by (simp add: ProtocolList_pattern_def)
    moreover from assms that have "RegExp_match (ProtocolList ! i) lc \<longrightarrow> ?Q i"
      unfolding literal_matches_def list_all_iff by blast
    ultimately show ?thesis
      using RegExp_match_prefix [of "ProtocolList ! i" lc] by auto
  qed
  have f: "filter ?P [1..<length ProtocolList] = filter ?Q [1..<length ProtocolList]"
    by (rule filter_cong) (simp_all only: eq)
  have up: "[1..<Suc (length ProtocolList)] = [1..<length ProtocolList] @ [length ProtocolList]"
    by (rule upt_Suc_append) (simp add: length_ProtocolList)
  have s: "URIRecord_scan lc 1 =
     (case filter ?Q [1..<length ProtocolList] @ filter ?P [length ProtocolList] of
        [] \<Rightarrow> Suc (length ProtocolList) | i # _ \<Rightarrow> i)"
    using scan_filter [of 1 lc] by (simp only: up filter_append f)
  show ?thesis
  proof (cases "filter ?Q [1..<length ProtocolList]")
    case Nil
    then show ?thesis
      using s by (simp add: first_prefix_def)
  next
    case (Cons i rest)
    then have "i \<in> set (filter ?Q [1..<length ProtocolList])"
      by simp
    then have "i < length ProtocolList"
      by simp
    then show ?thesis
      using s Cons by (simp add: first_prefix_def)
  qed
qed

text \<open>
  C3 (as amended). For every URI whose lower-cased form no entry of the protocol list
  matches as a pattern without being a prefix of it, \<open>reset\<close> selects the first entry in
  the order of the list, among the indices 1 to 35, that is a prefix of the lower-cased
  URI (index 0 when there is none) and the payload is the index followed by the URI
  without its first characters, as many as the entry has.
\<close>

theorem URIRecord_reset_first_prefix:
  assumes "literal_matches (toLowerCase uri)"
  shows "URIRecord_reset uri =
     URIRecord uri
       (of_nat (first_prefix (toLowerCase uri))
        # map charCodeAt (drop (length (ProtocolList ! first_prefix (toLowerCase uri))) uri))"
  unfolding URIRecord_reset_def Let_def scan_first_prefix [OF assms]
  by (rule refl)

theorem URIRecord_reset_first_prefix_witness:
  "first_prefix (toLowerCase ''URN:epc:id:x'') = 19
   \<and> URIRecord_reset ''URN:epc:id:x''
       = URIRecord ''URN:epc:id:x'' (19 # map charCodeAt ''epc:id:x'')"
proof -
  have l: "literal_matches (toLowerCase ''URN:epc:id:x'')"
    by code_simp
  have f: "first_prefix (toLowerCase ''URN:epc:id:x'') = 19"
    by code_simp
  have d: "drop (length (ProtocolList ! 19)) ''URN:epc:id:x'' = ''epc:id:x''"
    by code_simp
  from URIRecord_reset_first_prefix [OF l] f d show ?thesis
    by simp
qed

text \<open>
  The claim as first stated asks for the longest entry. For "urn:epc:id:x" the entry 30,
  "urn:epc:id:", is a prefix and is longer than the entry 19, "urn:", which is selected.
\<close>

theorem URIRecord_reset_longest_counterexample:
  "URIRecord_reset ''urn:epc:id:x'' = URIRecord ''urn:epc:id:x'' (19 # map charCodeAt ''epc:id:x'')
   \<and> prefix (ProtocolList ! 30) (toLowerCase ''urn:epc:id:x'')
   \<and> length (ProtocolList ! 19) < length (ProtocolList ! 30)"
  by code_simp

text \<open>
  Where a dot of an entry stands for another character, the entry is selected without
  being a prefix, and a character of the URI is dropped: the amended claim leaves these
  URIs out.
\<close>

lemma URIRecord_reset_wildcard:
  "URIRecord_reset ''http://www2.x'' = URIRecord ''http://www2.x'' (1 # map charCodeAt ''.x'')
   \<and> \<not> prefix (ProtocolList ! 1) (toLowerCase ''http://www2.x'')"
  by code_simp

section \<open>Serialising and parsing a message\<close>

lemma at_shift: "0 \<le> k \<Longrightarrow> at (pre @ xs) (int (length pre) + k) = at xs k"
  by (auto simp add: at_def nth_append nat_add_distrib)

lemma at_nth: "i < length xs \<Longrightarrow> at xs (int i) = Some (xs ! i)"
  by (simp add: at_def)

lemma slice_middle:
  "slice (a @ b @ c) (int (length a)) (int (length a) + int (length b)) = b"
  by (simp add: slice_def Let_def)

lemma header_short:
  "shortRecord (Header_fromByte (Header_toByte
     (Header_new\<lparr>messageBegin := f, messageEnd := l, TNF := Record_TNF r, shortRecord := sr\<rparr>)))
   = sr"
  by (cases r; cases f; cases l; cases sr)
     (simp_all add: Header_fromByte_def Header_toByte_def Header_new_def)

lemma byte_of_nat: "n < 256 \<Longrightarrow> unat (of_nat n :: byte) = n"
  by (simp add: unat_of_nat)

lemma fromCharCode_charCodeAt: "fromCharCode (Some (charCodeAt c)) = c"
  by (simp add: fromCharCode_def charCodeAt_def unat_of_nat)

lemma length_bytes_long:
  assumes "n < 2 ^ 31"
  obtains b0 b1 b2 b3 where "length_bytes n = [b0, b1, b2, b3]"
    and "long_length (Some b0) (Some b1) (Some b2) (Some b3) = int n"
proof -
  have "length_bytes n = [length_bytes n ! 0, length_bytes n ! 1, length_bytes n ! 2, length_bytes n ! 3]"
    by (simp add: length_bytes_def Let_def)
  with long_length_bytes [OF assms] that show thesis
    by blast
qed


lemma Record_parse_encoded:
  assumes wf: "well_formed r" and len: "length (Record_bytes r) < 2 ^ 31"
  shows "Record_parse (pre @ Record_getBytes r f l @ post) (int (length pre)) =
     Inr (Some (int (length (Record_getBytes r f l))),
          the (map_of typeKeys (Record_type r)) (Record_bytes r))"
proof -
  define n where "n = length (Record_bytes r)"
  define ty where "ty = map charCodeAt (Record_type r)"
  define h where "h = Header_toByte (Header_new\<lparr>messageBegin := f, messageEnd := l,
                        TNF := Record_TNF r, shortRecord := n < 0x100\<rparr>)"
  define t :: byte where "t = of_nat (length (Record_type r))"
  define lf where "lf = (if n < 0x100 then [of_nat n] else length_bytes n)"
  define rest where "rest = ty @ Record_bytes r @ post"
  define data where "data = pre @ [h, t] @ lf @ rest"
  define off where "off = int (length pre)"
  have enc: "Record_getBytes r f l = [h, t] @ lf @ ty @ Record_bytes r"
    by (simp add: Record_getBytes_def n_def ty_def h_def t_def lf_def Let_def)
  then have data: "pre @ Record_getBytes r f l @ post = data"
    by (simp add: data_def rest_def)
  have tyl: "1 \<le> length ty" "length ty \<le> 255"
    using wf by (simp_all add: well_formed_def ty_def)
  have rd: "at data (off + k) = at ([h, t] @ lf @ rest) k" if "0 \<le> k" for k
    unfolding data_def off_def using that by (rule at_shift)
  have h: "at data off = Some h"
    using rd [of 0] by (simp add: at_def)
  have t: "at data (off + 1) = Some t"
    using rd [of 1] by (simp add: at_def)
  have sr: "shortRecord (Header_ctor (at data off)) = (n < 0x100)"
    unfolding h Header_ctor_def h_def by (simp add: header_short)
  have lfl: "1 \<le> length lf"
    by (simp add: lf_def length_bytes_def Let_def)
  have rl: "Record_recordLen data off = (Some (int n), off + 2 + int (length lf))"
  proof (cases "n < 0x100")
    case True
    then have "at data (off + 2) = Some (of_nat n)"
      using rd [of 2] by (simp add: lf_def at_def)
    moreover have "uint (of_nat n :: byte) = int n"
      using True by (simp add: unsigned_of_nat take_bit_nat_eq_self)
    ultimately show ?thesis
      using True sr by (simp add: Record_recordLen_def lf_def)
  next
    case False
    from len obtain b0 b1 b2 b3 where b: "length_bytes n = [b0, b1, b2, b3]"
      and ll: "long_length (Some b0) (Some b1) (Some b2) (Some b3) = int n"
      unfolding n_def [symmetric] by (rule length_bytes_long)
    have "at data (off + 2) = Some b0" "at data (off + 3) = Some b1"
      "at data (off + 4) = Some b2" "at data (off + 5) = Some b3"
      using False rd [of 2] rd [of 3] rd [of 4] rd [of 5] by (simp_all add: lf_def b at_def)
    then show ?thesis
      using False sr ll by (simp add: Record_recordLen_def lf_def b)
  qed
  have tlen: "Record_typeLen data off = length ty"
    using tyl t byte_of_nat [of "length (Record_type r)"]
    by (simp add: Record_typeLen_def t_def ty_def)
  have at_ty: "at data (off + 2 + int (length lf) + int i) = Some (ty ! i)" if "i < length ty" for i
  proof -
    have d: "data = (pre @ [h, t] @ lf) @ rest"
      by (simp add: data_def)
    have idx: "off + 2 + int (length lf) + int i = int (length (pre @ [h, t] @ lf)) + int i"
      by (simp add: off_def)
    have "at data (off + 2 + int (length lf) + int i)
            = at ((pre @ [h, t] @ lf) @ rest) (int (length (pre @ [h, t] @ lf)) + int i)"
      by (simp only: idx d)
    also have "\<dots> = at rest (int i)"
      by (rule at_shift) simp
    also have "\<dots> = Some (ty ! i)"
      using that by (simp add: rest_def at_def nth_append)
    finally show ?thesis .
  qed
  have "map (\<lambda>i. fromCharCode (at data (off + 2 + int (length lf) + int i))) [0..<length ty]
          = map (\<lambda>i. fromCharCode (Some (ty ! i))) [0..<length ty]"
    by (rule map_cong) (simp_all add: at_ty)
  also have "\<dots> = map (\<lambda>b. fromCharCode (Some b)) ty"
    by (rule nth_equalityI) simp_all
  also have "\<dots> = Record_type r"
    by (simp add: ty_def fromCharCode_charCodeAt comp_def)
  finally have rt: "map (\<lambda>i. fromCharCode (at data (off + 2 + int (length lf) + int i)))
                      [0..<length ty] = Record_type r" .
  have d2: "data = (pre @ [h, t] @ lf @ ty) @ Record_bytes r @ post"
    by (simp add: data_def rest_def)
  have idx2: "off + 2 + int (length lf) + int (length ty) = int (length (pre @ [h, t] @ lf @ ty))"
    by (simp add: off_def)
  have sl: "slice data (off + 2 + int (length lf) + int (length ty))
                   (off + 2 + int (length lf) + int (length ty) + int n) = Record_bytes r"
    unfolding idx2 n_def d2 by (rule slice_middle)
  have ld: "int (length data) = off + 2 + int (length lf) + int (length ty) + int n + int (length post)"
    by (simp add: data_def rest_def n_def off_def)
  from wf obtain ctor where reg: "map_of typeKeys (Record_type r) = Some ctor"
    unfolding well_formed_def
    by (cases "map_of typeKeys (Record_type r)") (auto simp add: map_of_eq_None_iff)
  have "\<not> int (length data) - off < 4"
    using ld tyl lfl by simp
  then have "Record_parse data off =
      Inr (Some (2 + int (length lf) + int (length ty) + int n), ctor (Record_bytes r))"
    by (simp add: Record_parse_def rl tlen rt sl ld reg Let_def)
  moreover have "int (length (Record_getBytes r f l)) = 2 + int (length lf) + int (length ty) + int n"
    by (simp add: enc n_def)
  ultimately show ?thesis
    by (simp add: data reg off_def)
qed


lemma reparse:
  assumes "well_formed r"
  shows "Record_type (the (map_of typeKeys (Record_type r)) (Record_bytes r)) = Record_type r"
    and "Record_bytes (the (map_of typeKeys (Record_type r)) (Record_bytes r)) = Record_bytes r"
  using assms
  by (cases r;
      simp add: well_formed_def typeKeys_def TextRecord_parse_def URIRecord_parse_def
        AndroidApplicationRecord_parse_def Let_def)+

lemma Record_getBytes_nonempty: "0 < length (Record_getBytes r f l)"
  by (simp add: Record_getBytes_def Let_def)

lemma loop_encoded:
  assumes "\<forall>(r, f, l) \<in> set rs. well_formed r \<and> length (Record_bytes r) < 2 ^ 31"
  shows "Message_parse_loop (pre @ concat (map (\<lambda>(r, f, l). Record_getBytes r f l) rs))
           (int (length pre)) acc
         = Some (Inr (acc @ map (\<lambda>(r, f, l). the (map_of typeKeys (Record_type r)) (Record_bytes r)) rs))"
  using assms
proof (induction rs arbitrary: pre acc)
  case Nil
  show ?case
    by (subst Message_parse_loop.simps) simp
next
  case (Cons x rs)
  obtain r f l where x: "x = (r, f, l)"
    by (cases x) auto
  let ?enc = "Record_getBytes r f l"
  let ?post = "concat (map (\<lambda>(r, f, l). Record_getBytes r f l) rs)"
  let ?r' = "the (map_of typeKeys (Record_type r)) (Record_bytes r)"
  from Cons.prems x have wf: "well_formed r" "length (Record_bytes r) < 2 ^ 31"
    by simp_all
  have p: "Record_parse (pre @ ?enc @ ?post) (int (length pre)) = Inr (Some (int (length ?enc)), ?r')"
    using wf by (rule Record_parse_encoded)
  have lt: "int (length pre) < int (length (pre @ ?enc @ ?post))"
    using Record_getBytes_nonempty [of r f l] by (simp del: length_greater_0_conv)
  have "Message_parse_loop ((pre @ ?enc) @ ?post) (int (length (pre @ ?enc))) (acc @ [?r'])
          = Some (Inr ((acc @ [?r'])
              @ map (\<lambda>(r, f, l). the (map_of typeKeys (Record_type r)) (Record_bytes r)) rs))"
    using Cons.prems by (intro Cons.IH) simp
  then have next_step: "Message_parse_loop (pre @ ?enc @ ?post) (int (length pre) + int (length ?enc))
          (acc @ [?r'])
          = Some (Inr (acc @ ?r'
              # map (\<lambda>(r, f, l). the (map_of typeKeys (Record_type r)) (Record_bytes r)) rs))"
    by simp
  show ?case
    unfolding x
    by (subst Message_parse_loop.simps) (simp only: list.map concat.simps prod.case append_assoc lt p if_True sum.case option.case next_step)
qed

text \<open>
  For every message whose records are well formed (registered type name of 1 to 255
  characters, payload of at least the least length of the class) and have payloads shorter
  than 2^31 bytes, \<open>Message.parse\<close> of \<open>Message.getBytes\<close> returns a message with the
  same records in the same order: the same type names and the same payload bytes.
\<close>

lemma Message_roundtrip:
  assumes "\<forall>r \<in> set m. well_formed r \<and> length (Record_bytes r) < 2 ^ 31"
  shows "\<exists>m'. Message_parse (Message_getBytes m) = Some (Inr m')
           \<and> map Record_type m' = map Record_type m
           \<and> map Record_bytes m' = map Record_bytes m"
proof -
  define rs where "rs = map (\<lambda>i. (m ! i, i = 0, i = length m - 1)) [0..<length m]"
  define m' where "m' = map (\<lambda>(r, f, l). the (map_of typeKeys (Record_type r)) (Record_bytes r)) rs"
  have enc: "Message_getBytes m = concat (map (\<lambda>(r, f, l). Record_getBytes r f l) rs)"
    by (simp add: Message_getBytes_def rs_def comp_def)
  have wf: "\<forall>(r, f, l) \<in> set rs. well_formed r \<and> length (Record_bytes r) < 2 ^ 31"
    using assms by (auto simp add: rs_def)
  have "Message_parse_loop ([] @ concat (map (\<lambda>(r, f, l). Record_getBytes r f l) rs))
          (int (length ([] :: byte list))) [] = Some (Inr ([] @ m'))"
    unfolding m'_def using wf by (rule loop_encoded)
  then have parse: "Message_parse (Message_getBytes m) = Some (Inr m')"
    by (simp add: Message_parse_def enc)
  have m': "m' = map (\<lambda>r. the (map_of typeKeys (Record_type r)) (Record_bytes r)) m"
    by (rule nth_equalityI) (simp_all add: m'_def rs_def)
  have "map Record_type m' = map Record_type m" "map Record_bytes m' = map Record_bytes m"
    using assms by (simp_all add: m' reparse)
  with parse show ?thesis
    by blast
qed

lemma Message_roundtrip_example:
  "well_formed (URIRecord_new (CString ''http://www.example.com''))
   \<and> well_formed (TextRecord_new (CString ''hi''))
   \<and> (\<exists>m'. Message_parse (Message_getBytes
              [URIRecord_new (CString ''http://www.example.com''), TextRecord_new (CString ''hi'')])
            = Some (Inr m')
         \<and> map Record_type m' = [''U'', ''T'']
         \<and> map Record_bytes m'
             = [1 # map charCodeAt ''example.com'', 2 # map charCodeAt ''enhi''])"
proof -
  have u: "URIRecord_reset ''http://www.example.com''
             = URIRecord ''http://www.example.com'' (1 # map charCodeAt ''example.com'')"
    by code_simp
  have t: "TextRecord_reset ''hi'' = TextRecord ''hi'' ''en'' (2 # map charCodeAt ''enhi'')"
    by code_simp
  have w: "well_formed (URIRecord_new (CString ''http://www.example.com''))"
    "well_formed (TextRecord_new (CString ''hi''))"
    by (simp_all add: u t well_formed_def typeKeys_def)
  have h: "\<forall>r \<in> set [URIRecord_new (CString ''http://www.example.com''), TextRecord_new (CString ''hi'')].
      well_formed r \<and> length (Record_bytes r) < 2 ^ 31"
    using w by (simp add: u t)
  from Message_roundtrip [OF h] w show ?thesis
    by (simp add: u t)
qed










end
